theory Spec2Isabelle
  imports Main "HOL-Library.Multiset"
begin

section \<open>multiFileparse.c: counting distinct addresses with a pool of threads\<close>

text \<open>
  The program counts the regular files of a directory, starts \<open>num_threads\<close> threads
  running \<open>readFiles\<close>, each of which scans a range of numbered files, takes the first
  token of every line and, under the mutex \<open>map_lock\<close>, records it in the shared map and
  bumps \<open>num_distinct_IPs\<close> when the map did not hold it.

  C \<open>int\<close> values are modelled as \<open>int\<close>. In \<open>readFiles\<close> every intermediate value lies
  between 0 and \<open>num_files + 1\<close>, and the counter never exceeds the number of lines read,
  so nothing wraps as long as these stay below \<open>2^31\<close>.
\<close>

subsection \<open>The shared state\<close>

text \<open>
  The globals that the threads change: \<open>map\<close> (named \<open>map_sm\<close> here) and
  \<open>num_distinct_IPs\<close>. A C string pointer that may be NULL is a \<open>string option\<close>.
\<close>

record globals =
  map_sm :: "string \<rightharpoonup> string"
  num_distinct_IPs :: int

text \<open>
  Modelled from the spec: \<open>sm_new\<close> of strmap.c, which is not among the sources (only
  strmap.h is included). The spec describes the store as a mapping from address strings
  to presence; a new one holds no key.
\<close>

definition sm_new :: "string \<rightharpoonup> string" where
  "sm_new = Map.empty"

text \<open>
  Modelled from the spec: \<open>sm_exists\<close> of strmap.c, which is not among the sources. It
  tells whether the mapping holds the key. A NULL key is no address string and is never
  held: the StrMap library answers 0 for it.
\<close>

definition sm_exists :: "(string \<rightharpoonup> string) \<Rightarrow> string option \<Rightarrow> bool" where
  "sm_exists m key = (case key of None \<Rightarrow> False | Some k \<Rightarrow> m k \<noteq> None)"

text \<open>
  Modelled from the spec: \<open>sm_put\<close> of strmap.c, which is not among the sources. It
  binds the key to the value; a key once bound stays bound. With a NULL key the StrMap
  library stores nothing. Allocation is taken to succeed.
\<close>

definition sm_put :: "(string \<rightharpoonup> string) \<Rightarrow> string option \<Rightarrow> string \<Rightarrow> (string \<rightharpoonup> string)" where
  "sm_put m key v = (case key of None \<Rightarrow> m | Some k \<Rightarrow> m(k \<mapsto> v))"

text \<open>The state when the first thread starts: a fresh map, the counter a zeroed global.\<close>

definition initial :: globals where
  "initial = \<lparr>map_sm = sm_new, num_distinct_IPs = 0\<rparr>"

text \<open>
  Lines 176 to 182 of \<open>readFiles\<close>, the region between \<open>pthread_mutex_lock\<close> and
  \<open>pthread_mutex_unlock\<close>. Every access of a thread to the map and the counter is inside
  it, so the region is one indivisible step on the shared state.
\<close>

definition locked_update :: "globals \<Rightarrow> string option \<Rightarrow> globals" where
  "locked_update g ip =
     (let flag = sm_exists (map_sm g) ip in
      if \<not> flag
      then g\<lparr>map_sm := sm_put (map_sm g) ip '''', num_distinct_IPs := num_distinct_IPs g + 1\<rparr>
      else g)"

subsection \<open>Tokens\<close>

text \<open>
  \<open>strtok (line, " ")\<close>, first call on a string: skip the leading delimiter characters;
  NULL when nothing is left, otherwise the characters up to the next delimiter. The
  only delimiter is the space character. A line is the C string \<open>getline\<close> returned (the
  bytes before its first NUL), with its newline when the file had one. The call writes
  the position it stopped at into a static variable and never reads it, so its result
  depends on the line alone also when several threads call it.
\<close>

definition strtok :: "string \<Rightarrow> string option" where
  "strtok line =
     (let rest = dropWhile (\<lambda>c. c = CHR '' '') line in
      if rest = [] then None else Some (takeWhile (\<lambda>c. c \<noteq> CHR '' '') rest))"

subsection \<open>What a thread does\<close>

text \<open>
  A thread's control flow never depends on the shared state, so \<open>readFiles\<close> is modelled
  by the sequence of its effects: what it prints, and the locked regions it runs with
  their token.
\<close>

datatype action =
    Header int int int
  | NotFound int
  | Update "string option"
  | Accessed int int int

text \<open>C integer division truncates towards zero.\<close>

definition c_div :: "int \<Rightarrow> int \<Rightarrow> int" where
  "c_div a b = sgn a * sgn b * (\<bar>a\<bar> div \<bar>b\<bar>)"

text \<open>
  The body of the file loop for index \<open>i\<close> (lines 161 to 187). The parameter \<open>fopen\<close>
  gives, for the file name built from \<open>dir_name\<close> and \<open>i\<close>, the lines that \<open>getline\<close>
  yields, or \<open>None\<close> when \<open>fopen\<close> returns NULL.
\<close>

definition visit_file :: "(int \<Rightarrow> string list option) \<Rightarrow> int \<Rightarrow> int \<Rightarrow> action list" where
  "visit_file fopen tid i =
     (case fopen i of
        None \<Rightarrow> [NotFound i]
      | Some lines \<Rightarrow> map (\<lambda>line. Update (strtok line)) lines @ [Accessed i tid (int (length lines))])"

text \<open>
  The \<open>while (1)\<close> loop of lines 152 to 189 with its two \<open>break\<close> tests, for any loop
  body. \<open>nf\<close> is \<open>num_files\<close>, \<open>nt\<close> is \<open>num_threads\<close>.
\<close>

function scan :: "(int \<Rightarrow> 'a list) \<Rightarrow> int \<Rightarrow> int \<Rightarrow> int \<Rightarrow> int \<Rightarrow> 'a list" where
  "scan body nf nt tid i =
     (let num = c_div nf nt; partition = tid * num; last_one = (tid = nt - 1) in
      if last_one \<and> i > nf then []
      else if \<not> last_one \<and> i > partition + num then []
      else body i @ scan body nf nt tid (i + 1))"
  by pat_completeness auto
termination
  by (relation "measure (\<lambda>(body, nf, nt, tid, i).
        nat ((if tid = nt - 1 then nf else tid * c_div nf nt + c_div nf nt) + 1 - i))") auto

declare scan.simps [simp del]

text \<open>The file indices the loop of thread \<open>tid\<close> visits: the loop run with a body that records \<open>i\<close>.\<close>

definition file_range :: "int \<Rightarrow> int \<Rightarrow> int \<Rightarrow> int list" where
  "file_range nf nt tid = scan (\<lambda>i. [i]) nf nt tid (tid * c_div nf nt + 1)"

text \<open>
  \<open>readFiles\<close>: the three lines printed at the start, then the loop when the thread's
  own \<open>opendir\<close> succeeded (\<open>dir_ok\<close>). The closing \<open>closedir\<close> changes nothing that is
  modelled; after a failed \<open>opendir\<close> it is called with NULL, which glibc rejects with
  EINVAL.
\<close>

definition readFiles :: "bool \<Rightarrow> (int \<Rightarrow> string list option) \<Rightarrow> int \<Rightarrow> int \<Rightarrow> int \<Rightarrow> action list" where
  "readFiles dir_ok fopen nf nt tid =
     (let num = c_div nf nt; partition = tid * num in
      Header (tid + 1) num partition #
      (if dir_ok then scan (visit_file fopen tid) nf nt tid (partition + 1) else []))"

text \<open>The last index the loop of thread \<open>tid\<close> does not break at.\<close>

definition bound :: "int \<Rightarrow> int \<Rightarrow> int \<Rightarrow> int" where
  "bound nf nt tid = (if tid = nt - 1 then nf else tid * c_div nf nt + c_div nf nt)"

text \<open>The threads whose loop visits no file.\<close>

definition idle_threads :: "int \<Rightarrow> int \<Rightarrow> int list" where
  "idle_threads nf nt = filter (\<lambda>tid. file_range nf nt tid = []) [0..nt - 1]"

subsection \<open>Running actions on the shared state\<close>

fun apply_action :: "globals \<Rightarrow> action \<Rightarrow> globals" where
  "apply_action g (Update ip) = locked_update g ip"
| "apply_action g (Header t n p) = g"
| "apply_action g (NotFound i) = g"
| "apply_action g (Accessed i t n) = g"

definition run :: "action list \<Rightarrow> globals \<Rightarrow> globals" where
  "run tr g = foldl apply_action g tr"

text \<open>What a trace tells: the addresses it submits, its NULL tokens, the files it tried to open.\<close>

fun key_of :: "action \<Rightarrow> string list" where
  "key_of (Update (Some k)) = [k]"
| "key_of a = []"

definition keys :: "action list \<Rightarrow> string list" where
  "keys tr = concat (map key_of tr)"

definition nulls :: "action list \<Rightarrow> nat" where
  "nulls tr = length (filter (\<lambda>a. a = Update None) tr)"

fun file_of :: "action \<Rightarrow> int list" where
  "file_of (NotFound i) = [i]"
| "file_of (Accessed i t n) = [i]"
| "file_of a = []"

definition visited :: "action list \<Rightarrow> int list" where
  "visited tr = concat (map file_of tr)"

subsection \<open>Threads running together\<close>

text \<open>
  The threads share nothing but the map and the counter, which they touch only inside
  the locked region, so a run of the pool is an interleaving of the threads' action
  sequences: \<open>interleaving ws tr\<close> holds when \<open>tr\<close> takes, step by step, the next action
  of some thread that has one left, until no thread has any.
\<close>

fun interleaving :: "'a list list \<Rightarrow> 'a list \<Rightarrow> bool" where
  "interleaving ws [] = list_all (\<lambda>w. w = []) ws"
| "interleaving ws (a # tr) =
     list_ex (\<lambda>i. case ws ! i of [] \<Rightarrow> False
                  | b # bs \<Rightarrow> b = a \<and> interleaving (ws[i := bs]) tr) [0..<length ws]"

subsection \<open>The main thread\<close>

text \<open>
  What the program finds outside itself: \<open>opendir_main\<close> gives the \<open>d_type\<close> of the
  entries \<open>readdir\<close> yields for a directory name, or \<open>None\<close> when \<open>opendir\<close> fails in
  \<open>main\<close>; \<open>sm_new_ok\<close> tells whether \<open>sm_new\<close> returned a map; \<open>pthread_create\<close> is the
  code returned for the thread of a given index; \<open>opendir_thread\<close> tells whether the
  \<open>opendir\<close> of that thread succeeds; \<open>fopen_in\<close> is \<open>fopen\<close> above, for each directory name.
\<close>

datatype d_type = DT_REG | DT_OTHER

record sys =
  opendir_main :: "string \<Rightarrow> d_type list option"
  sm_new_ok :: bool
  pthread_create :: "int \<Rightarrow> int"
  opendir_thread :: "string \<Rightarrow> int \<Rightarrow> bool"
  fopen_in :: "string \<Rightarrow> int \<Rightarrow> string list option"

text \<open>
  \<open>atoi\<close> of the C library, as glibc has it: the value \<open>strtol\<close> reads in base 10,
  converted from \<open>long\<close> to \<open>int\<close>. \<open>strtol\<close> skips white space, takes an optional sign
  and the decimal digits that follow, whatever comes after them; it gives 0 when there
  is no digit and the nearest of \<open>LONG_MIN\<close> and \<open>LONG_MAX\<close> (64 bits) when the value is
  out of range. The conversion to the 32-bit \<open>int\<close> keeps the low 32 bits.
\<close>

definition isspace :: "char \<Rightarrow> bool" where
  "isspace c = (c \<in> set [CHR '' '', CHR 0x09, CHR 0x0A, CHR 0x0B, CHR 0x0C, CHR 0x0D])"

definition isdigit :: "char \<Rightarrow> bool" where
  "isdigit c = (48 \<le> (of_char c :: nat) \<and> (of_char c :: nat) \<le> 57)"

fun digits :: "int \<Rightarrow> string \<Rightarrow> int" where
  "digits acc [] = acc"
| "digits acc (c # cs) =
     (if isdigit c then digits (10 * acc + (of_char c - 48)) cs else acc)"

definition strtol :: "string \<Rightarrow> int" where
  "strtol s =
     (let v = (case dropWhile isspace s of
                 [] \<Rightarrow> 0
               | c # cs \<Rightarrow>
                   if c = CHR ''-'' then - digits 0 cs
                   else if c = CHR ''+'' then digits 0 cs
                   else digits 0 (c # cs))
      in max (- (2 ^ 63)) (min (2 ^ 63 - 1) v))"

definition int_of_long :: "int \<Rightarrow> int" where
  "int_of_long v = (v + 2 ^ 31) mod 2 ^ 32 - 2 ^ 31"

definition atoi :: "string \<Rightarrow> int" where
  "atoi s = int_of_long (strtol s)"

text \<open>
  Lines 40 to 98 of \<open>main\<close>: the checks of the arguments, in the order of the code, the
  creation of the map and the count of the regular files. \<open>argv\<close> holds the program
  name first, so \<open>argc\<close> is its length. Every failure returns -1.
\<close>

datatype startup = Fatal int | Ready string int int

definition main_setup :: "sys \<Rightarrow> string list \<Rightarrow> startup" where
  "main_setup y argv =
     (if length argv < 3 then Fatal (- 1)
      else if length argv > 3 then Fatal (- 1)
      else
        case opendir_main y (argv ! 1) of
          None \<Rightarrow> Fatal (- 1)
        | Some ents \<Rightarrow>
            let num_threads = atoi (argv ! 2) in
            if num_threads \<le> 0 then Fatal (- 1)
            else if \<not> sm_new_ok y then Fatal (- 1)
            else Ready (argv ! 1) (int (length (filter (\<lambda>d. d = DT_REG) ents))) num_threads)"

text \<open>The action sequences of the threads with indices \<open>0\<close> to \<open>k - 1\<close>.\<close>

definition threads :: "sys \<Rightarrow> string \<Rightarrow> int \<Rightarrow> int \<Rightarrow> int \<Rightarrow> action list list" where
  "threads y dir nf nt k =
     map (\<lambda>tid. readFiles (opendir_thread y dir tid) (fopen_in y dir) nf nt tid) [0..k - 1]"

text \<open>
  The whole program. \<open>status\<close> is the value \<open>main\<close> returns or passes to \<open>exit\<close> (0 when
  it ends in \<open>pthread_exit\<close> after the joins), \<open>created\<close> the number of threads started,
  \<open>performed\<close> the actions of the threads in the order they happened, \<open>printed\<close> the
  count of the last \<open>printf\<close>. When \<open>pthread_create\<close> fails for thread \<open>k\<close>, \<open>exit\<close> stops
  the threads already running wherever they are.
\<close>

record outcome =
  status :: int
  created :: int
  performed :: "action list"
  printed :: "int option"

inductive main_exec :: "sys \<Rightarrow> string list \<Rightarrow> outcome \<Rightarrow> bool" where
  fatal:
    "main_setup y argv = Fatal st \<Longrightarrow>
     main_exec y argv \<lparr>status = st, created = 0, performed = [], printed = None\<rparr>"
| create_failed:
    "main_setup y argv = Ready dir nf nt \<Longrightarrow>
     find (\<lambda>i. pthread_create y i \<noteq> 0) [0..nt - 1] = Some k \<Longrightarrow>
     interleaving (threads y dir nf nt k) tr \<Longrightarrow>
     main_exec y argv \<lparr>status = - 1, created = k, performed = take n tr, printed = None\<rparr>"
| joined:
    "main_setup y argv = Ready dir nf nt \<Longrightarrow>
     find (\<lambda>i. pthread_create y i \<noteq> 0) [0..nt - 1] = None \<Longrightarrow>
     interleaving (threads y dir nf nt nt) tr \<Longrightarrow>
     main_exec y argv \<lparr>status = 0, created = nt, performed = tr,
       printed = Some (num_distinct_IPs (run tr initial))\<rparr>"

subsection \<open>The tokenizer the spec describes\<close>

text \<open>
  The spec's words, for comparison with \<open>strtok\<close>: the line is split on whitespace and
  the first token is the candidate; a line with no token has none.
\<close>

definition spec_first_token :: "string \<Rightarrow> string option" where
  "spec_first_token line =
     (let rest = dropWhile isspace line in
      if rest = [] then None else Some (takeWhile (\<lambda>c. \<not> isspace c) rest))"

subsection \<open>The thread count the spec describes\<close>


section \<open>The partition of the files\<close>

lemma c_div_nonneg: "0 \<le> a \<Longrightarrow> 0 < b \<Longrightarrow> c_div a b = a div b"
  by (cases "a = 0") (simp_all add: c_div_def)

lemma scan_index_upto: "scan (\<lambda>i. [i]) nf nt tid i = [i..bound nf nt tid]"
proof (induction "\<lambda>i::int. [i]" nf nt tid i rule: scan.induct)
  case (1 nf nt tid i)
  show ?case
  proof (cases "i \<le> bound nf nt tid")
    case True
    then have "scan (\<lambda>i. [i]) nf nt tid i = i # scan (\<lambda>i. [i]) nf nt tid (i + 1)"
      by (subst scan.simps) (auto simp: bound_def Let_def split: if_splits)
    moreover have "scan (\<lambda>i. [i]) nf nt tid (i + 1) = [i + 1..bound nf nt tid]"
      using True by (intro "1.hyps") (auto simp: bound_def split: if_splits)
    ultimately show ?thesis using True by (simp add: upto_rec1)
  next
    case False
    then have "scan (\<lambda>i. [i]) nf nt tid i = []"
      by (subst scan.simps) (auto simp: bound_def Let_def split: if_splits)
    then show ?thesis using False by simp
  qed
qed

lemma scan_body: "scan body nf nt tid i = concat (map body (scan (\<lambda>i. [i]) nf nt tid i))"
proof (induction body nf nt tid i rule: scan.induct)
  case (1 body nf nt tid i)
  show ?case
  proof (cases "i \<le> bound nf nt tid")
    case True
    then have a: "scan body nf nt tid i = body i @ scan body nf nt tid (i + 1)"
      by (subst scan.simps) (auto simp: bound_def Let_def split: if_splits)
    have b: "scan (\<lambda>i. [i]) nf nt tid i = i # scan (\<lambda>i. [i]) nf nt tid (i + 1)"
      using True by (subst scan.simps) (auto simp: bound_def Let_def split: if_splits)
    have "scan body nf nt tid (i + 1) = concat (map body (scan (\<lambda>i. [i]) nf nt tid (i + 1)))"
      using True by (intro "1.IH") (auto simp: bound_def split: if_splits)
    then show ?thesis using a b by simp
  next
    case False
    then have "scan body nf nt tid i = []" "scan (\<lambda>i. [i]) nf nt tid i = []"
      by (subst scan.simps, auto simp: bound_def Let_def split: if_splits)+
    then show ?thesis by simp
  qed
qed

lemma concat_blocks:
  "0 \<le> p \<Longrightarrow> concat (map (\<lambda>t. [t * p + 1..t * p + p]) [0..int n - 1]) = [1..int n * p]"
proof (induction n)
  case 0
  then show ?case by simp
next
  case (Suc n)
  have "[0..int (Suc n) - 1] = [0..int n - 1] @ [int n]"
    by (simp add: upto_rec2)
  moreover have "[1..int (Suc n) * p] = [1..int n * p] @ [int n * p + 1..int n * p + p]"
  proof -
    have "int n * p \<ge> 0" using Suc.prems by simp
    show ?thesis
    proof (cases "p = 0")
      case True
      then show ?thesis by simp
    next
      case False
      with Suc.prems have "1 \<le> p" by simp
      with \<open>int n * p \<ge> 0\<close>
      have "[1..int n * p + p] = [1..int n * p + 1 - 1] @ [int n * p + 1..int n * p + p]"
        by (intro upto_split1) auto
      then show ?thesis by (simp add: algebra_simps)
    qed
  qed
  ultimately show ?case using Suc by simp
qed


lemma upto_split_at: "0 \<le> j \<Longrightarrow> j \<le> n \<Longrightarrow> [1..n] = [1..j] @ [j + 1..n]"
proof (cases "j = n")
  case True
  then show ?thesis by simp
next
  case False
  assume "0 \<le> j" "j \<le> n"
  with False have "[1..n] = [1..j + 1 - 1] @ [j + 1..n]"
    by (intro upto_split1) auto
  then show ?thesis by simp
qed

lemma file_range_upto:
  "file_range nf nt tid = [tid * c_div nf nt + 1..bound nf nt tid]"
  by (simp add: file_range_def scan_index_upto)

lemma file_range_covers:
  assumes "0 \<le> nf" "0 < nt"
  shows "concat (map (file_range nf nt) [0..nt - 1]) = [1..nf]"
proof -
  define p where "p = c_div nf nt"
  have p: "p = nf div nt" "0 \<le> p"
    using assms by (simp_all add: p_def c_div_nonneg pos_imp_zdiv_nonneg_iff)
  have "nt * (nf div nt) + nf mod nt = nf" "0 \<le> nf mod nt"
    using assms(2) by simp_all
  then have "nt * p \<le> nf"
    unfolding p(1) by linarith
  moreover have "(nt - 1) * p \<le> nt * p"
    using p(2) by (simp add: mult_right_mono)
  ultimately have le: "(nt - 1) * p \<le> nf" by linarith
  have ge: "0 \<le> (nt - 1) * p" using assms p(2) by simp
  obtain n where n: "nt - 1 = int n"
    using assms(2) by (metis zero_le_imp_eq_int diff_ge_0_iff_ge int_one_le_iff_zero_less)
  have idx: "[0..int n] = [0..int n - 1] @ [int n]"
    by (simp add: upto_rec2)
  have front: "map (file_range nf nt) [0..int n - 1]
      = map (\<lambda>t. [t * p + 1..t * p + p]) [0..int n - 1]"
    using n by (intro map_cong) (auto simp: file_range_upto bound_def p_def)
  have "concat (map (file_range nf nt) [0..int n])
      = concat (map (\<lambda>t. [t * p + 1..t * p + p]) [0..int n - 1]) @ file_range nf nt (int n)"
    by (subst idx) (simp add: front)
  also have "file_range nf nt (int n) = [int n * p + 1..nf]"
    using n by (simp add: file_range_upto bound_def p_def)
  also have "concat (map (\<lambda>t. [t * p + 1..t * p + p]) [0..int n - 1]) = [1..int n * p]"
    by (rule concat_blocks [OF p(2)])
  finally have "concat (map (file_range nf nt) [0..nt - 1])
      = [1..(nt - 1) * p] @ [(nt - 1) * p + 1..nf]"
    using n by simp
  also have "\<dots> = [1..nf]"
    using upto_split_at [OF ge le] by simp
  finally show ?thesis .
qed

text \<open>
  C2: with at least one file and a positive number of threads not above the number of
  files, and \<open>c_div nf nt\<close> the truncated quotient, every thread \<open>tid\<close> but the last
  visits exactly the indices from \<open>tid * c_div nf nt + 1\<close> to \<open>(tid + 1) * c_div nf nt\<close>, the
  last thread visits those from \<open>(nt - 1) * c_div nf nt + 1\<close> to \<open>nf\<close>, and the ranges of
  all threads, one after the other, are the indices 1 to \<open>nf\<close>, each exactly once.
\<close>

theorem partition_covers:
  assumes "1 \<le> nf" "0 < nt" "nt \<le> nf"
  shows "c_div nf nt = nf div nt
       \<and> (\<forall>tid. 0 \<le> tid \<and> tid < nt - 1 \<longrightarrow>
             file_range nf nt tid = [tid * c_div nf nt + 1..(tid + 1) * c_div nf nt])
       \<and> file_range nf nt (nt - 1) = [(nt - 1) * c_div nf nt + 1..nf]
       \<and> concat (map (file_range nf nt) [0..nt - 1]) = [1..nf]
       \<and> distinct (concat (map (file_range nf nt) [0..nt - 1]))
       \<and> set (concat (map (file_range nf nt) [0..nt - 1])) = {1..nf}"
proof -
  have cov: "concat (map (file_range nf nt) [0..nt - 1]) = [1..nf]"
    using assms by (intro file_range_covers) auto
  have "c_div nf nt = nf div nt"
    using assms by (intro c_div_nonneg) auto
  moreover have "\<forall>tid. 0 \<le> tid \<and> tid < nt - 1 \<longrightarrow>
      file_range nf nt tid = [tid * c_div nf nt + 1..(tid + 1) * c_div nf nt]"
    by (auto simp: file_range_upto bound_def algebra_simps)
  moreover have "file_range nf nt (nt - 1) = [(nt - 1) * c_div nf nt + 1..nf]"
    by (simp add: file_range_upto bound_def)
  ultimately show ?thesis
    by (simp add: cov)
qed

theorem partition_covers_witness:
  "file_range 7 3 0 = [1, 2] \<and> file_range 7 3 1 = [3, 4] \<and> file_range 7 3 2 = [5, 6, 7]
   \<and> concat (map (file_range 7 3) [0..2]) = [1, 2, 3, 4, 5, 6, 7]"
proof -
  have h: "(1::int) \<le> 7" "(0::int) < 3" "(3::int) \<le> 7" by simp_all
  have d: "c_div 7 3 = 2" by (simp add: c_div_def)
  note t = partition_covers [OF h]
  from t have "file_range 7 3 0 = [0 * c_div 7 3 + 1..(0 + 1) * c_div 7 3]" by simp
  moreover from t have "file_range 7 3 1 = [1 * c_div 7 3 + 1..(1 + 1) * c_div 7 3]" by simp
  moreover from t have "file_range 7 3 2 = [(3 - 1) * c_div 7 3 + 1..7]" by simp
  moreover from t have "concat (map (file_range 7 3) [0..3 - 1]) = [1..7]" by simp
  ultimately show ?thesis by (simp add: d upto_rec1)
qed

text \<open>
  C3: with more threads than files the quotient is 0, every thread but the last has
  an empty range (its first index 1 is above its last index 0), and the last thread
  visits the indices 1 to \<open>nf\<close>, which is all the threads together visit.
\<close>

theorem more_threads_than_files:
  assumes "0 \<le> nf" "nf < nt"
  shows "c_div nf nt = 0
       \<and> (\<forall>tid. 0 \<le> tid \<and> tid < nt - 1 \<longrightarrow>
             tid * c_div nf nt + 1 > (tid + 1) * c_div nf nt \<and> file_range nf nt tid = [])
       \<and> file_range nf nt (nt - 1) = [1..nf]
       \<and> concat (map (file_range nf nt) [0..nt - 1]) = [1..nf]"
proof -
  have z: "c_div nf nt = 0"
    using assms by (simp add: c_div_nonneg)
  have "concat (map (file_range nf nt) [0..nt - 1]) = [1..nf]"
    using assms by (intro file_range_covers) auto
  moreover have "\<forall>tid. 0 \<le> tid \<and> tid < nt - 1 \<longrightarrow>
      tid * c_div nf nt + 1 > (tid + 1) * c_div nf nt \<and> file_range nf nt tid = []"
    by (auto simp: file_range_upto bound_def z)
  moreover have "file_range nf nt (nt - 1) = [1..nf]"
    by (simp add: file_range_upto bound_def z)
  ultimately show ?thesis using z by simp
qed

theorem more_threads_than_files_witness:
  "file_range 2 4 0 = [] \<and> file_range 2 4 1 = [] \<and> file_range 2 4 2 = []
   \<and> file_range 2 4 3 = [1, 2] \<and> concat (map (file_range 2 4) [0..3]) = [1, 2]"
proof -
  have h: "(0::int) \<le> 2" "(2::int) < 4" by simp_all
  note t = more_threads_than_files [OF h]
  from t have "file_range 2 4 0 = []" "file_range 2 4 1 = []" "file_range 2 4 2 = []"
    by simp_all
  moreover from t have "file_range 2 4 3 = [1..2]" by simp
  moreover from t have "concat (map (file_range 2 4) [0..4 - 1]) = [1..2]" by simp
  ultimately show ?thesis by (simp add: upto_rec1)
qed

section \<open>The shared map and counter under any interleaving\<close>

lemma run_Nil [simp]: "run [] g = g"
  by (simp add: run_def)

lemma run_Cons [simp]: "run (a # tr) g = run tr (apply_action g a)"
  by (simp add: run_def)

lemma run_append: "run (xs @ ys) g = run ys (run xs g)"
  by (simp add: run_def)

lemma keys_simps [simp]:
  "keys [] = []"
  "keys (Update (Some k) # tr) = k # keys tr"
  "keys (Update None # tr) = keys tr"
  "keys (Header t n p # tr) = keys tr"
  "keys (NotFound i # tr) = keys tr"
  "keys (Accessed i t n # tr) = keys tr"
  "keys (xs @ ys) = keys xs @ keys ys"
  by (simp_all add: keys_def)

lemma nulls_simps [simp]:
  "nulls [] = 0"
  "nulls (Update (Some k) # tr) = nulls tr"
  "nulls (Update None # tr) = Suc (nulls tr)"
  "nulls (Header t n p # tr) = nulls tr"
  "nulls (NotFound i # tr) = nulls tr"
  "nulls (Accessed i t n # tr) = nulls tr"
  "nulls (xs @ ys) = nulls xs + nulls ys"
  by (simp_all add: nulls_def)

lemma locked_update_Some:
  "locked_update g (Some k) =
     (if k \<in> dom (map_sm g) then g
      else g\<lparr>map_sm := (map_sm g)(k \<mapsto> ''''), num_distinct_IPs := num_distinct_IPs g + 1\<rparr>)"
  by (auto simp: locked_update_def sm_exists_def sm_put_def)

lemma locked_update_None:
  "locked_update g None = g\<lparr>num_distinct_IPs := num_distinct_IPs g + 1\<rparr>"
  by (simp add: locked_update_def sm_exists_def sm_put_def)

lemma card_new_key:
  assumes "finite S" "k \<notin> D"
  shows "card (insert k S - D) = Suc (card (S - insert k D))"
proof -
  have "insert k S - D = insert k (S - insert k D)" using assms(2) by auto
  moreover have "k \<notin> S - insert k D" by simp
  moreover have "finite (S - insert k D)" using assms(1) by simp
  ultimately show ?thesis by simp
qed

lemma run_dom: "dom (map_sm (run tr g)) = dom (map_sm g) \<union> set (keys tr)"
proof (induction tr arbitrary: g)
  case Nil
  then show ?case by simp
next
  case (Cons a tr)
  show ?case
  proof (cases a)
    case (Update ip)
    then show ?thesis
      by (cases ip) (auto simp: Cons.IH locked_update_Some locked_update_None)
  qed (simp_all add: Cons.IH)
qed

lemma run_count:
  "num_distinct_IPs (run tr g) =
     num_distinct_IPs g + int (card (set (keys tr) - dom (map_sm g))) + int (nulls tr)"
proof (induction tr arbitrary: g)
  case Nil
  then show ?case by simp
next
  case (Cons a tr)
  show ?case
  proof (cases a)
    case (Update ip)
    show ?thesis
    proof (cases ip)
      case None
      with Update show ?thesis
        by (simp add: Cons.IH locked_update_None)
    next
      case (Some k)
      show ?thesis
      proof (cases "k \<in> dom (map_sm g)")
        case True
        then have "insert k (set (keys tr)) - dom (map_sm g) = set (keys tr) - dom (map_sm g)"
          by auto
        with True Update Some show ?thesis
          by (simp add: Cons.IH locked_update_Some)
      next
        case False
        have c: "card (insert k (set (keys tr)) - dom (map_sm g))
            = Suc (card (set (keys tr) - insert k (dom (map_sm g))))"
          using False by (intro card_new_key) auto
        have d: "dom (map_sm (locked_update g (Some k))) = insert k (dom (map_sm g))"
          and n: "num_distinct_IPs (locked_update g (Some k)) = num_distinct_IPs g + 1"
          using False by (simp_all add: locked_update_Some)
        have "num_distinct_IPs (run (a # tr) g)
            = num_distinct_IPs (run tr (locked_update g (Some k)))"
          using Update Some by simp
        also have "\<dots> = num_distinct_IPs g + 1
            + int (card (set (keys tr) - insert k (dom (map_sm g)))) + int (nulls tr)"
          unfolding Cons.IH d n ..
        also have "\<dots> = num_distinct_IPs g
            + int (card (insert k (set (keys tr)) - dom (map_sm g))) + int (nulls tr)"
          unfolding c by simp
        finally show ?thesis
          using Update Some by simp
      qed
    qed
  qed (simp_all add: Cons.IH)
qed

lemma run_keys_kept: "dom (map_sm g) \<subseteq> dom (map_sm (run tr g))"
  by (simp add: run_dom)

lemma run_count_mono: "num_distinct_IPs g \<le> num_distinct_IPs (run tr g)"
  by (simp add: run_count)

text \<open>Interleavings\<close>

lemma concat_nth_split:
  assumes "i < length ws" "ws ! i = b # bs"
  shows "concat ws = concat (take i ws) @ b # bs @ concat (drop (Suc i) ws)"
    and "concat (ws[i := bs]) = concat (take i ws) @ bs @ concat (drop (Suc i) ws)"
proof -
  have "ws = take i ws @ (b # bs) # drop (Suc i) ws"
    using assms by (metis id_take_nth_drop)
  then have "concat ws = concat (take i ws @ (b # bs) # drop (Suc i) ws)" by simp
  then show "concat ws = concat (take i ws) @ b # bs @ concat (drop (Suc i) ws)" by simp
  have "ws[i := bs] = take i ws @ bs # drop (Suc i) ws"
    using assms(1) by (rule upd_conv_take_nth_drop)
  then show "concat (ws[i := bs]) = concat (take i ws) @ bs @ concat (drop (Suc i) ws)" by simp
qed

lemma interleaving_mset: "interleaving ws tr \<Longrightarrow> mset tr = mset (concat ws)"
proof (induction tr arbitrary: ws)
  case Nil
  then have "\<forall>w\<in>set ws. w = []" by (simp add: list_all_iff)
  then have "concat ws = []" by simp
  then show ?case by simp
next
  case (Cons a tr)
  from Cons.prems obtain i where il: "i < length ws"
    and c: "case ws ! i of [] \<Rightarrow> False | b # bs \<Rightarrow> b = a \<and> interleaving (ws[i := bs]) tr"
    by (auto simp: list_ex_iff)
  from c obtain b bs where i: "i < length ws" "ws ! i = b # bs" "b = a"
    "interleaving (ws[i := bs]) tr"
    using il by (cases "ws ! i") auto
  from Cons.IH [OF i(4)] have "mset tr = mset (concat (ws[i := bs]))" .
  then show ?case
    using concat_nth_split [OF i(1,2)] i(3) by simp
qed

lemma interleaving_exists: "\<exists>tr. interleaving ws tr"
proof (induction "length (concat ws)" arbitrary: ws)
  case 0
  then have "list_all (\<lambda>w. w = []) ws" by (simp add: list_all_iff)
  then have "interleaving ws []" by simp
  then show ?case ..
next
  case (Suc n)
  from Suc.hyps(2) have "length (concat ws) \<noteq> 0" by linarith
  then have "concat ws \<noteq> []" by (simp only: length_0_conv not_False_eq_True)
  then obtain w where "w \<in> set ws" "w \<noteq> []" by auto
  then obtain i b bs where i: "i < length ws" "ws ! i = b # bs"
    by (metis in_set_conv_nth neq_Nil_conv)
  have "length (concat (ws[i := bs])) = n"
    using concat_nth_split [OF i] Suc.hyps(2) by simp
  from Suc.hyps(1) [OF this [symmetric]] obtain tr where "interleaving (ws[i := bs]) tr" ..
  with i have "interleaving ws (b # tr)"
    by (auto simp: list_ex_iff intro!: bexI [of _ i])
  then show ?case ..
qed

lemma keys_mset_cong: "mset xs = mset ys \<Longrightarrow> set (keys xs) = set (keys ys)"
proof -
  assume "mset xs = mset ys"
  then have "set xs = set ys" by (rule mset_eq_setD)
  then show ?thesis by (auto simp: keys_def)
qed

lemma nulls_mset_cong: "mset xs = mset ys \<Longrightarrow> nulls xs = nulls ys"
proof -
  assume "mset xs = mset ys"
  then have "size (filter_mset (\<lambda>a. a = Update None) (mset xs))
           = size (filter_mset (\<lambda>a. a = Update None) (mset ys))" by simp
  then show ?thesis by (simp add: nulls_def flip: mset_filter)
qed

lemma interleaving_count:
  assumes "interleaving ws tr"
  shows "num_distinct_IPs (run tr g) =
     num_distinct_IPs g + int (card (set (keys (concat ws)) - dom (map_sm g)))
       + int (nulls (concat ws))"
    and "dom (map_sm (run tr g)) = dom (map_sm g) \<union> set (keys (concat ws))"
proof -
  have m: "mset tr = mset (concat ws)"
    using assms by (rule interleaving_mset)
  have k: "set (keys tr) = set (keys (concat ws))"
    using m by (rule keys_mset_cong)
  have n: "nulls tr = nulls (concat ws)"
    using m by (rule nulls_mset_cong)
  show "num_distinct_IPs (run tr g) =
     num_distinct_IPs g + int (card (set (keys (concat ws)) - dom (map_sm g)))
       + int (nulls (concat ws))"
    unfolding run_count k n ..
  show "dom (map_sm (run tr g)) = dom (map_sm g) \<union> set (keys (concat ws))"
    unfolding run_dom k ..
qed

lemma nulls_zero: "Update None \<notin> set tr \<Longrightarrow> nulls tr = 0"
  by (auto simp: nulls_def filter_empty_conv)

text \<open>
  C1: when the threads insert addresses only (no NULL token), a complete run of the
  pool exists, and after every complete run, whatever the order in which the threads'
  locked regions were taken, \<open>num_distinct_IPs\<close> is the number of distinct elements of
  the multiset of all addresses the threads submit, which are then the keys of the map.
\<close>

theorem distinct_count_any_interleaving:
  assumes "Update None \<notin> set (concat ws)"
  shows "(\<exists>tr. interleaving ws tr)
       \<and> (\<forall>tr. interleaving ws tr \<longrightarrow>
             num_distinct_IPs (run tr initial) = int (card (set_mset (mset (keys (concat ws)))))
           \<and> dom (map_sm (run tr initial)) = set (keys (concat ws)))"
proof -
  have z: "nulls (concat ws) = 0"
    using assms by (rule nulls_zero)
  have i: "dom (map_sm initial) = {}" "num_distinct_IPs initial = 0"
    by (simp_all add: initial_def sm_new_def)
  have "num_distinct_IPs (run tr initial) = int (card (set_mset (mset (keys (concat ws)))))
      \<and> dom (map_sm (run tr initial)) = set (keys (concat ws))"
    if "interleaving ws tr" for tr
    using interleaving_count [OF that, of initial] by (simp add: z i)
  then show ?thesis
    using interleaving_exists [of ws] by blast
qed

theorem distinct_count_any_interleaving_witness:
  "interleaving
     [[Update (Some ''a''), Update (Some ''b'')], [Update (Some ''b''), Update (Some ''c'')]]
     [Update (Some ''b''), Update (Some ''a''), Update (Some ''c''), Update (Some ''b'')]
   \<and> num_distinct_IPs
       (run [Update (Some ''b''), Update (Some ''a''), Update (Some ''c''), Update (Some ''b'')]
          initial) = 3"
proof -
  let ?ws = "[[Update (Some ''a''), Update (Some ''b'')], [Update (Some ''b''), Update (Some ''c'')]]"
  let ?tr = "[Update (Some ''b''), Update (Some ''a''), Update (Some ''c''), Update (Some ''b'')]"
  have h: "Update None \<notin> set (concat ?ws)" by simp
  have i: "interleaving ?ws ?tr" by (simp add: upt_rec)
  from distinct_count_any_interleaving [OF h] i
  have "num_distinct_IPs (run ?tr initial) = int (card (set_mset (mset (keys (concat ?ws)))))"
    by blast
  also have "\<dots> = 3" by simp
  finally show ?thesis using i by simp
qed

lemma keys_removeAll:
  "keys (removeAll (Update (Some a)) tr) = removeAll a (keys tr)"
proof (induction tr)
  case Nil
  then show ?case by simp
next
  case (Cons x tr)
  show ?case
  proof (cases x)
    case (Update ip)
    with Cons show ?thesis by (cases ip) auto
  qed (simp_all add: Cons)
qed

lemma nulls_removeAll:
  "nulls (removeAll (Update (Some a)) tr) = nulls tr"
  by (induction tr) (auto simp: nulls_def)

lemma keys_member: "Update (Some a) \<in> set tr \<Longrightarrow> a \<in> set (keys tr)"
  by (auto simp: keys_def intro!: bexI [of _ "Update (Some a)"])

lemma locked_update_twice:
  "locked_update (locked_update g (Some a)) (Some a) = locked_update g (Some a)"
  by (simp add: locked_update_Some)

lemma locked_update_funpow:
  "((\<lambda>h. locked_update h (Some a)) ^^ Suc k) g = locked_update g (Some a)"
  by (induction k) (simp_all add: locked_update_twice)

text \<open>
  C6: for an address \<open>a\<close> and \<open>k \<ge> 1\<close>, running the locked region \<open>k\<close> times in a row
  with \<open>a\<close> is the same as running it once; after it the map holds \<open>a\<close>; on a state that
  holds \<open>a\<close> it changes nothing; on a state that does not, it adds 1 to the counter and
  binds \<open>a\<close> in the map. With other actions in between: a sequence that runs the region
  \<open>k\<close> times with \<open>a\<close>, from a state without \<open>a\<close>, ends with a counter exactly 1 above
  that of the same sequence with these \<open>k\<close> steps left out, and with \<open>a\<close> as the one
  additional key.
\<close>

theorem same_address_counts_once:
  assumes "1 \<le> k"
  shows "((\<lambda>h. locked_update h (Some a)) ^^ k) g = locked_update g (Some a)
       \<and> a \<in> dom (map_sm (locked_update g (Some a)))
       \<and> (a \<in> dom (map_sm g) \<longrightarrow> locked_update g (Some a) = g)
       \<and> (a \<notin> dom (map_sm g) \<longrightarrow>
            num_distinct_IPs (locked_update g (Some a)) = num_distinct_IPs g + 1
          \<and> map_sm (locked_update g (Some a)) = (map_sm g)(a \<mapsto> []))
       \<and> (a \<notin> dom (map_sm g) \<and> count_list tr (Update (Some a)) = k \<longrightarrow>
            num_distinct_IPs (run tr g)
              = num_distinct_IPs (run (removeAll (Update (Some a)) tr) g) + 1
          \<and> dom (map_sm (run tr g))
              = insert a (dom (map_sm (run (removeAll (Update (Some a)) tr) g))))"
proof -
  obtain j where j: "k = Suc j"
    using assms by (cases k) auto
  have p1: "((\<lambda>h. locked_update h (Some a)) ^^ k) g = locked_update g (Some a)"
    unfolding j by (rule locked_update_funpow)
  have p2: "a \<in> dom (map_sm (locked_update g (Some a)))"
    by (simp add: locked_update_Some)
  have p3: "a \<in> dom (map_sm g) \<longrightarrow> locked_update g (Some a) = g"
    by (simp add: locked_update_Some)
  have p4: "a \<notin> dom (map_sm g) \<longrightarrow>
            num_distinct_IPs (locked_update g (Some a)) = num_distinct_IPs g + 1
          \<and> map_sm (locked_update g (Some a)) = (map_sm g)(a \<mapsto> [])"
    by (simp add: locked_update_Some)
  have p5: "num_distinct_IPs (run tr g)
              = num_distinct_IPs (run (removeAll (Update (Some a)) tr) g) + 1
          \<and> dom (map_sm (run tr g))
              = insert a (dom (map_sm (run (removeAll (Update (Some a)) tr) g)))"
    if absent: "a \<notin> dom (map_sm g)" and cnt: "count_list tr (Update (Some a)) = k"
  proof -
    from cnt assms have "Update (Some a) \<in> set tr"
      by (metis count_list_0_iff not_one_le_zero)
    then have mem: "a \<in> set (keys tr)" by (rule keys_member)
    let ?S = "set (keys tr)" and ?D = "dom (map_sm g)"
    have "?S - ?D = insert a ((?S - {a}) - ?D)"
      using mem absent by auto
    moreover have "a \<notin> (?S - {a}) - ?D" by simp
    moreover have "finite ((?S - {a}) - ?D)" by simp
    ultimately have "card (?S - ?D) = Suc (card ((?S - {a}) - ?D))"
      by (metis card_insert_disjoint)
    then have "num_distinct_IPs (run tr g)
        = num_distinct_IPs (run (removeAll (Update (Some a)) tr) g) + 1"
      by (simp add: run_count keys_removeAll nulls_removeAll)
    moreover have "dom (map_sm (run tr g))
        = insert a (dom (map_sm (run (removeAll (Update (Some a)) tr) g)))"
      using mem by (auto simp: run_dom keys_removeAll)
    ultimately show ?thesis by simp
  qed
  from p1 p2 p3 p4 p5 show ?thesis by blast
qed

theorem same_address_counts_once_witness:
  "((\<lambda>h. locked_update h (Some ''a'')) ^^ 3) initial = locked_update initial (Some ''a'')
   \<and> num_distinct_IPs (locked_update initial (Some ''a'')) = 1
   \<and> num_distinct_IPs
        (run [Update (Some ''a''), Update (Some ''b''), Update (Some ''a''), Update (Some ''a'')]
           initial) = num_distinct_IPs (run [Update (Some ''b'')] initial) + 1"
proof -
  let ?tr = "[Update (Some ''a''), Update (Some ''b''), Update (Some ''a''), Update (Some ''a'')]"
  have h: "(1::nat) \<le> 3" by simp
  have a: "''a'' \<notin> dom (map_sm initial)" by (simp add: initial_def sm_new_def)
  have c: "count_list ?tr (Update (Some ''a'')) = 3" by simp
  have r: "removeAll (Update (Some ''a'')) ?tr = [Update (Some ''b'')]" by simp
  have n: "num_distinct_IPs initial = 0" by (simp add: initial_def)
  note t = same_address_counts_once [OF h, of "''a''" initial ?tr]
  from t a c have "num_distinct_IPs (run ?tr initial)
      = num_distinct_IPs (run (removeAll (Update (Some ''a'')) ?tr) initial) + 1"
    by blast
  moreover from t a have "num_distinct_IPs (locked_update initial (Some ''a'')) = 1"
    using n by simp
  moreover from t
  have "((\<lambda>h. locked_update h (Some ''a'')) ^^ 3) initial = locked_update initial (Some ''a'')"
    by blast
  ultimately show ?thesis unfolding r by blast
qed

section \<open>Files that cannot be opened\<close>

lemma scan_step:
  "i \<le> bound nf nt tid \<Longrightarrow> scan body nf nt tid i = body i @ scan body nf nt tid (i + 1)"
  by (subst scan.simps) (auto simp: bound_def Let_def split: if_splits)

lemma readFiles_True:
  "readFiles True fopen nf nt tid =
     Header (tid + 1) (c_div nf nt) (tid * c_div nf nt)
       # concat (map (visit_file fopen tid) (file_range nf nt tid))"
  by (simp add: readFiles_def Let_def file_range_def scan_body [of "visit_file fopen tid"])

lemma readFiles_False:
  "readFiles False fopen nf nt tid = [Header (tid + 1) (c_div nf nt) (tid * c_div nf nt)]"
  by (simp add: readFiles_def Let_def)

lemma visited_simps [simp]:
  "visited [] = []"
  "visited (Header t n p # tr) = visited tr"
  "visited (NotFound i # tr) = i # visited tr"
  "visited (Update ip # tr) = visited tr"
  "visited (Accessed i t n # tr) = i # visited tr"
  "visited (xs @ ys) = visited xs @ visited ys"
  by (simp_all add: visited_def)

lemma visited_updates [simp]: "visited (map (\<lambda>line. Update (f line)) ls) = []"
  by (induction ls) simp_all

lemma visited_visit_file [simp]: "visited (visit_file fopen tid i) = [i]"
  by (simp add: visit_file_def split: option.splits)

lemma visited_concat_visit:
  "visited (concat (map (visit_file fopen tid) xs)) = xs"
  by (induction xs) simp_all

lemma file_range_mem:
  "i \<in> set (file_range nf nt tid) \<longleftrightarrow> tid * c_div nf nt + 1 \<le> i \<and> i \<le> bound nf nt tid"
  by (simp add: file_range_upto)

lemma main_exec_status:
  assumes "main_exec y argv r"
  shows "status r =
     (case main_setup y argv of
        Fatal st \<Rightarrow> st
      | Ready dir nf nt \<Rightarrow>
          (case find (\<lambda>i. pthread_create y i \<noteq> 0) [0..nt - 1] of None \<Rightarrow> 0 | Some k \<Rightarrow> - 1))"
  using assms by cases simp_all

lemma main_setup_fopen: "main_setup (y\<lparr>fopen_in := f\<rparr>) argv = main_setup y argv"
  by (simp add: main_setup_def Let_def split: option.splits)

text \<open>
  C7: when the file of an index \<open>i\<close> in the range of a thread cannot be opened, the loop
  prints the miss and goes on with \<open>i + 1\<close>; the visit submits no token and leaves the
  shared state as it was; the thread still visits every index of its range; and the
  exit status of the program is the same whatever the files are.
\<close>

theorem missing_file_skipped:
  assumes "fopen i = None" "i \<in> set (file_range nf nt tid)"
  shows "scan (visit_file fopen tid) nf nt tid i
           = NotFound i # scan (visit_file fopen tid) nf nt tid (i + 1)
       \<and> keys (visit_file fopen tid i) = [] \<and> nulls (visit_file fopen tid i) = 0
       \<and> run (visit_file fopen tid i) g = g
       \<and> NotFound i \<in> set (readFiles True fopen nf nt tid)
       \<and> visited (readFiles True fopen nf nt tid) = file_range nf nt tid
       \<and> (\<forall>y argv f r r'. main_exec y argv r \<and> main_exec (y\<lparr>fopen_in := f\<rparr>) argv r'
             \<longrightarrow> status r = status r')"
proof -
  have v: "visit_file fopen tid i = [NotFound i]"
    using assms(1) by (simp add: visit_file_def)
  have "i \<le> bound nf nt tid"
    using assms(2) by (simp add: file_range_mem)
  then have p1: "scan (visit_file fopen tid) nf nt tid i
      = NotFound i # scan (visit_file fopen tid) nf nt tid (i + 1)"
    by (simp add: scan_step v)
  have p2: "keys (visit_file fopen tid i) = []" "nulls (visit_file fopen tid i) = 0"
    "run (visit_file fopen tid i) g = g"
    by (simp_all add: v)
  have "NotFound i \<in> set (visit_file fopen tid i)" by (simp add: v)
  then have p3: "NotFound i \<in> set (readFiles True fopen nf nt tid)"
    using assms(2) by (auto simp: readFiles_True)
  have p4: "visited (readFiles True fopen nf nt tid) = file_range nf nt tid"
    by (simp add: readFiles_True visited_concat_visit)
  have p5: "status r = status r'"
    if "main_exec y argv r" "main_exec (y\<lparr>fopen_in := f\<rparr>) argv r'" for y argv f r r'
    using main_exec_status [OF that(1)] main_exec_status [OF that(2)]
    by (simp add: main_setup_fopen split: startup.splits)
  from p1 p2 p3 p4 p5 show ?thesis by blast
qed

theorem missing_file_skipped_witness:
  "scan (visit_file (\<lambda>i. if i = 2 then None else Some [''a b'']) 0) 3 1 0 2
     = NotFound 2 # scan (visit_file (\<lambda>i. if i = 2 then None else Some [''a b'']) 0) 3 1 0 (2 + 1)
   \<and> visited (readFiles True (\<lambda>i. if i = 2 then None else Some [''a b'']) 3 1 0) = [1, 2, 3]"
proof -
  let ?f = "\<lambda>i::int. if i = 2 then None else Some [''a b'']"
  have r: "file_range 3 1 0 = [1, 2, 3]"
    by (simp add: file_range_upto bound_def c_div_def upto_rec1)
  have h1: "?f 2 = None" by simp
  have h2: "2 \<in> set (file_range 3 1 0)" by (simp add: r)
  from missing_file_skipped [of ?f 2 3 1 0 initial] h1 h2 show ?thesis
    unfolding r by blast
qed

text \<open>
  C10: a thread whose own \<open>opendir\<close> fails prints its three opening lines and nothing
  else: it tries no file, runs no locked region, prints no line for any index, and
  leaves the shared state unchanged; a thread with an empty range whose \<open>opendir\<close>
  succeeds does exactly the same.
\<close>

theorem opendir_failure_skips_range:
  "readFiles False fopen nf nt tid = [Header (tid + 1) (c_div nf nt) (tid * c_div nf nt)]
   \<and> visited (readFiles False fopen nf nt tid) = []
   \<and> keys (readFiles False fopen nf nt tid) = []
   \<and> nulls (readFiles False fopen nf nt tid) = 0
   \<and> run (readFiles False fopen nf nt tid) g = g
   \<and> (file_range nf nt tid = [] \<longrightarrow>
        readFiles True fopen nf nt tid = readFiles False fopen nf nt tid)"
  by (simp add: readFiles_False readFiles_True)

theorem opendir_failure_skips_range_witness:
  "readFiles False (\<lambda>i. Some [''a b'']) 3 5 4 = [Header 5 0 0]
   \<and> run (readFiles False (\<lambda>i. Some [''a b'']) 3 5 4) initial = initial
   \<and> readFiles True (\<lambda>i. Some [''a b'']) 3 5 0 = readFiles False (\<lambda>i. Some [''a b'']) 3 5 0"
proof -
  have e: "file_range 3 5 0 = []"
    by (simp add: file_range_upto bound_def c_div_def)
  have c: "c_div 3 5 = 0" by (simp add: c_div_def)
  from opendir_failure_skips_range [of "\<lambda>i. Some [''a b'']" 3 5 4 initial]
    opendir_failure_skips_range [of "\<lambda>i. Some [''a b'']" 3 5 0 initial] e
  show ?thesis by (simp add: c)
qed

section \<open>The outcomes of the main thread\<close>

lemma main_exec_total: "\<exists>r. main_exec y argv r"
proof (cases "main_setup y argv")
  case (Fatal st)
  then show ?thesis by (blast intro: main_exec.fatal)
next
  case (Ready dir nf nt)
  show ?thesis
  proof (cases "find (\<lambda>i. pthread_create y i \<noteq> 0) [0..nt - 1]")
    case None
    obtain tr where "interleaving (threads y dir nf nt nt) tr"
      using interleaving_exists by blast
    with Ready None show ?thesis by (blast intro: main_exec.joined)
  next
    case (Some k)
    obtain tr where "interleaving (threads y dir nf nt k) tr"
      using interleaving_exists by blast
    with Ready Some show ?thesis by (blast intro: main_exec.create_failed)
  qed
qed




lemma main_exec_joined:
  assumes "main_exec y argv r" "main_setup y argv = Ready dir nf nt" "status r = 0"
  shows "created r = nt \<and> interleaving (threads y dir nf nt nt) (performed r)
       \<and> printed r = Some (num_distinct_IPs (run (performed r) initial))"
  using assms by cases auto

section \<open>Three files and five threads\<close>

lemma keys_visit_file_tid: "keys (visit_file fopen tid i) = keys (visit_file fopen 0 i)"
  by (simp add: visit_file_def split: option.splits)

lemma nulls_visit_file_tid: "nulls (visit_file fopen tid i) = nulls (visit_file fopen 0 i)"
  by (simp add: visit_file_def split: option.splits)

lemma keys_concat_visit:
  "keys (concat (map (visit_file fopen tid) xs)) = keys (concat (map (visit_file fopen 0) xs))"
  by (induction xs) (simp_all add: keys_visit_file_tid [of fopen tid])

lemma nulls_concat_visit:
  "nulls (concat (map (visit_file fopen tid) xs)) = nulls (concat (map (visit_file fopen 0) xs))"
  by (induction xs) (simp_all add: nulls_visit_file_tid [of fopen tid])

lemma keys_readFiles:
  "keys (readFiles ok fopen nf nt tid)
     = (if ok then keys (concat (map (visit_file fopen 0) (file_range nf nt tid))) else [])"
  by (cases ok) (simp_all add: readFiles_True readFiles_False keys_concat_visit [of fopen tid])

lemma nulls_readFiles:
  "nulls (readFiles ok fopen nf nt tid)
     = (if ok then nulls (concat (map (visit_file fopen 0) (file_range nf nt tid))) else 0)"
  by (cases ok) (simp_all add: readFiles_True readFiles_False nulls_concat_visit [of fopen tid])

lemma ranges_3_5:
  "file_range 3 5 0 = []" "file_range 3 5 1 = []" "file_range 3 5 2 = []"
  "file_range 3 5 3 = []" "file_range 3 5 4 = [1, 2, 3]" "file_range 3 1 0 = [1, 2, 3]"
  by (simp_all add: file_range_upto bound_def c_div_def upto_rec1)

lemma idle_3_5: "idle_threads 3 5 = [0, 1, 2, 3]"
  by (simp add: idle_threads_def ranges_3_5 upto_rec1)

text \<open>
  C8 as stated fails: with 3 files and 5 threads the threads 0, 1, 2 and 3 have an
  empty range, four of them and not three.
\<close>

theorem five_threads_three_files_counterexample:
  "idle_threads 3 5 = [0, 1, 2, 3] \<and> length (idle_threads 3 5) \<noteq> 3"
  by (simp add: idle_threads_def ranges_3_5 upto_rec1)

text \<open>
  C8, amended: for a directory with exactly 3 regular files, a run with 5 threads
  leaves 4 threads with an empty range while the last thread visits the files 1, 2
  and 3, as the only thread of a run with 1 thread does; when the scanning thread's
  \<open>opendir\<close> succeeds in both runs and both runs end with status 0, they print the same
  count and end with the same keys in the map.
\<close>

theorem five_threads_three_files:
  assumes "main_setup y argv5 = Ready dir 3 5" "main_setup y argv1 = Ready dir 3 1"
    and "opendir_thread y dir 4" "opendir_thread y dir 0"
    and "main_exec y argv5 r5" "status r5 = 0"
    and "main_exec y argv1 r1" "status r1 = 0"
  shows "length (idle_threads 3 5) = 4
       \<and> file_range 3 5 4 = [1, 2, 3] \<and> file_range 3 1 0 = [1, 2, 3]
       \<and> printed r5 = printed r1
       \<and> dom (map_sm (run (performed r5) initial)) = dom (map_sm (run (performed r1) initial))"
proof -
  let ?f = "fopen_in y dir"
  have i5: "interleaving (threads y dir 3 5 5) (performed r5)"
    and p5: "printed r5 = Some (num_distinct_IPs (run (performed r5) initial))"
    using main_exec_joined [OF assms(5) assms(1) assms(6)] by simp_all
  have i1: "interleaving (threads y dir 3 1 1) (performed r1)"
    and p1: "printed r1 = Some (num_distinct_IPs (run (performed r1) initial))"
    using main_exec_joined [OF assms(7) assms(2) assms(8)] by simp_all
  have k5: "keys (concat (threads y dir 3 5 5))
      = keys (concat (map (visit_file ?f 0) [1, 2, 3]))"
    using assms(3) by (simp add: threads_def upto_rec1 keys_readFiles ranges_3_5)
  have k1: "keys (concat (threads y dir 3 1 1))
      = keys (concat (map (visit_file ?f 0) [1, 2, 3]))"
    using assms(4) by (simp add: threads_def upto_rec1 keys_readFiles ranges_3_5)
  have n5: "nulls (concat (threads y dir 3 5 5))
      = nulls (concat (map (visit_file ?f 0) [1, 2, 3]))"
    using assms(3) by (simp add: threads_def upto_rec1 nulls_readFiles ranges_3_5)
  have n1: "nulls (concat (threads y dir 3 1 1))
      = nulls (concat (map (visit_file ?f 0) [1, 2, 3]))"
    using assms(4) by (simp add: threads_def upto_rec1 nulls_readFiles ranges_3_5)
  have "num_distinct_IPs (run (performed r5) initial)
      = num_distinct_IPs (run (performed r1) initial)"
    unfolding interleaving_count(1) [OF i5] interleaving_count(1) [OF i1] k5 k1 n5 n1 ..
  moreover have "dom (map_sm (run (performed r5) initial))
      = dom (map_sm (run (performed r1) initial))"
    unfolding interleaving_count(2) [OF i5] interleaving_count(2) [OF i1] k5 k1 ..
  ultimately show ?thesis
    by (simp add: p5 p1 idle_3_5 ranges_3_5)
qed

theorem five_threads_three_files_witness:
  "\<exists>r5 r1.
     main_exec \<lparr>opendir_main = \<lambda>d. Some [DT_REG, DT_OTHER, DT_REG, DT_REG], sm_new_ok = True,
        pthread_create = \<lambda>i. 0, opendir_thread = \<lambda>d i. True,
        fopen_in = \<lambda>d i. if i = 2 then None else Some [''a b'']\<rparr> [''prog'', ''logs/'', ''5''] r5
   \<and> main_exec \<lparr>opendir_main = \<lambda>d. Some [DT_REG, DT_OTHER, DT_REG, DT_REG], sm_new_ok = True,
        pthread_create = \<lambda>i. 0, opendir_thread = \<lambda>d i. True,
        fopen_in = \<lambda>d i. if i = 2 then None else Some [''a b'']\<rparr> [''prog'', ''logs/'', ''1''] r1
   \<and> status r5 = 0 \<and> status r1 = 0 \<and> printed r5 = printed r1"
proof -
  let ?y = "\<lparr>opendir_main = \<lambda>d. Some [DT_REG, DT_OTHER, DT_REG, DT_REG], sm_new_ok = True,
        pthread_create = \<lambda>i. 0, opendir_thread = \<lambda>d i. True,
        fopen_in = \<lambda>d i. if i = 2 then None else Some [''a b'']\<rparr>"
  let ?a5 = "[''prog'', ''logs/'', ''5'']" and ?a1 = "[''prog'', ''logs/'', ''1'']"
  have s5: "main_setup ?y ?a5 = Ready ''logs/'' 3 5"
    and s1: "main_setup ?y ?a1 = Ready ''logs/'' 3 1"
    by (simp_all add: main_setup_def atoi_def strtol_def int_of_long_def isspace_def isdigit_def)
  obtain r5 where r5: "main_exec ?y ?a5 r5" using main_exec_total by blast
  obtain r1 where r1: "main_exec ?y ?a1 r1" using main_exec_total by blast
  have z5: "status r5 = 0"
    using main_exec_status [OF r5] by (simp add: s5 upto_rec1)
  have z1: "status r1 = 0"
    using main_exec_status [OF r1] by (simp add: s1 upto_rec1)
  have o: "opendir_thread ?y ''logs/'' 4" "opendir_thread ?y ''logs/'' 0" by simp_all
  from five_threads_three_files [OF s5 s1 o r5 z5 r1 z1]
  have "printed r5 = printed r1" by blast
  with r5 r1 z5 z1 show ?thesis by blast
qed

section \<open>Tokens of a line\<close>

lemma strtok_Some_iff:
  "strtok line = Some t \<longleftrightarrow>
     dropWhile (\<lambda>c. c = CHR '' '') line \<noteq> []
     \<and> t = takeWhile (\<lambda>c. c \<noteq> CHR '' '') (dropWhile (\<lambda>c. c = CHR '' '') line)"
  by (auto simp: strtok_def Let_def)

lemma strtok_exists:
  assumes "\<exists>c\<in>set line. c \<noteq> CHR '' ''"
  shows "\<exists>t. strtok line = Some t"
proof -
  have "dropWhile (\<lambda>c. c = CHR '' '') line \<noteq> []"
    using assms by (simp add: dropWhile_eq_Nil_conv)
  then show ?thesis by (simp add: strtok_Some_iff)
qed

lemma strtok_decomp:
  assumes "strtok line = Some t"
  shows "t \<noteq> [] \<and> CHR '' '' \<notin> set t
       \<and> (\<exists>n rest. line = replicate n (CHR '' '') @ t @ rest
             \<and> (rest = [] \<or> hd rest = CHR '' ''))"
proof -
  let ?sp = "takeWhile (\<lambda>c. c = CHR '' '') line"
  let ?r = "dropWhile (\<lambda>c. c = CHR '' '') line"
  let ?rest = "dropWhile (\<lambda>c. c \<noteq> CHR '' '') ?r"
  from assms have r: "?r \<noteq> []" and t: "t = takeWhile (\<lambda>c. c \<noteq> CHR '' '') ?r"
    by (simp_all add: strtok_Some_iff)
  from r have "hd ?r \<noteq> CHR '' ''"
    using hd_dropWhile [of "\<lambda>c. c = CHR '' ''" line] by simp
  with r have t1: "t \<noteq> []"
    unfolding t by (cases ?r) auto
  have t2: "CHR '' '' \<notin> set t"
    unfolding t by (auto dest: set_takeWhileD)
  have "\<forall>c\<in>set ?sp. c = CHR '' ''"
    by (auto dest: set_takeWhileD)
  then have sp: "replicate (length ?sp) (CHR '' '') = ?sp"
    by (rule replicate_length_same)
  have "line = ?sp @ ?r" by simp
  also have "?r = t @ ?rest" unfolding t by simp
  finally have l: "line = replicate (length ?sp) (CHR '' '') @ t @ ?rest"
    unfolding sp .
  have "?rest = [] \<or> hd ?rest = CHR '' ''"
    using hd_dropWhile [of "\<lambda>c. c \<noteq> CHR '' ''" ?r] by auto
  with l t1 t2 show ?thesis by blast
qed

lemma isspace_space: "isspace (CHR '' '')"
  by (simp add: isspace_def)

lemma strtok_spec:
  assumes "strtok line = Some t" "\<forall>c\<in>set t. \<not> isspace c"
  shows "spec_first_token line = Some t"
proof -
  from strtok_decomp [OF assms(1)] obtain n rest where t: "t \<noteq> []"
    and l: "line = replicate n (CHR '' '') @ t @ rest"
    and r: "rest = [] \<or> hd rest = CHR '' ''"
    by blast
  from t obtain c cs where c: "t = c # cs" by (cases t) auto
  with assms(2) have nc: "\<not> isspace c" by simp
  have "dropWhile isspace line = dropWhile isspace (t @ rest)"
    unfolding l by (rule dropWhile_append2) (simp add: isspace_space)
  also have "\<dots> = t @ rest"
    using nc by (simp add: c)
  finally have d: "dropWhile isspace line = t @ rest" .
  have "takeWhile (\<lambda>c. \<not> isspace c) rest = []"
    using r by (cases rest) (auto simp: isspace_space)
  then have "takeWhile (\<lambda>c. \<not> isspace c) (t @ rest) = t"
    using assms(2) by (simp add: takeWhile_append2)
  then show ?thesis
    using t by (simp add: spec_first_token_def d Let_def)
qed

lemma spec_first_token_no_space:
  assumes "spec_first_token line = Some t"
  shows "\<forall>c\<in>set t. \<not> isspace c"
proof -
  from assms have "t = takeWhile (\<lambda>c. \<not> isspace c) (dropWhile isspace line)"
    by (simp add: spec_first_token_def Let_def split: if_splits)
  then show ?thesis by (auto dest: set_takeWhileD)
qed

lemma visit_file_nth:
  assumes "fopen i = Some lines" "j < length lines"
  shows "visit_file fopen tid i ! j = Update (strtok (lines ! j))"
  using assms by (simp add: visit_file_def nth_append)

text \<open>
  C4 as stated fails: the line \<open>10.0.0.1\<close> followed by a newline has the first
  whitespace-delimited token \<open>10.0.0.1\<close>, but the thread submits the line with its
  newline, so the same address read with and without a trailing newline counts twice;
  and a line that is only a newline has no whitespace-delimited token, yet the thread
  submits the newline as a key.
\<close>

theorem newline_kept_in_token_counterexample:
  "strtok (''10.0.0.1'' @ [CHR 0x0A]) = Some (''10.0.0.1'' @ [CHR 0x0A])
   \<and> spec_first_token (''10.0.0.1'' @ [CHR 0x0A]) = Some ''10.0.0.1''
   \<and> strtok (''10.0.0.1'' @ [CHR 0x0A]) \<noteq> spec_first_token (''10.0.0.1'' @ [CHR 0x0A])
   \<and> visit_file (\<lambda>i. Some [''10.0.0.1'' @ [CHR 0x0A], ''10.0.0.1'']) 0 1
       = [Update (Some (''10.0.0.1'' @ [CHR 0x0A])), Update (Some ''10.0.0.1''), Accessed 1 0 2]
   \<and> num_distinct_IPs
        (run (visit_file (\<lambda>i. Some [''10.0.0.1'' @ [CHR 0x0A], ''10.0.0.1'']) 0 1) initial) = 2
   \<and> strtok [CHR 0x0A] = Some [CHR 0x0A] \<and> spec_first_token [CHR 0x0A] = None
   \<and> num_distinct_IPs (run (visit_file (\<lambda>i. Some [[CHR 0x0A]]) 0 1) initial) = 1"
  by (simp add: strtok_def spec_first_token_def isspace_def visit_file_def initial_def
      sm_new_def locked_update_def sm_exists_def sm_put_def)

text \<open>
  C4, amended: for every line of an opened file that holds a character other than a
  space, the thread runs the locked region with exactly the first space-delimited
  token \<open>t\<close> of the line: \<open>t\<close> is not empty, holds no space, follows the leading spaces
  of the line and is followed by a space or by the end of the line. It is the first
  whitespace-delimited token of the spec exactly when it holds no whitespace character
  at all.
\<close>

theorem first_space_token_submitted:
  assumes "fopen i = Some lines" "j < length lines" "\<exists>c\<in>set (lines ! j). c \<noteq> CHR '' ''"
  shows "\<exists>t. visit_file fopen tid i ! j = Update (Some t)
          \<and> strtok (lines ! j) = Some t
          \<and> t \<noteq> [] \<and> CHR '' '' \<notin> set t
          \<and> (\<exists>n rest. lines ! j = replicate n (CHR '' '') @ t @ rest
                \<and> (rest = [] \<or> hd rest = CHR '' ''))
          \<and> ((\<forall>c\<in>set t. \<not> isspace c) \<longleftrightarrow> spec_first_token (lines ! j) = Some t)"
proof -
  from strtok_exists [OF assms(3)] obtain t where t: "strtok (lines ! j) = Some t" ..
  have "visit_file fopen tid i ! j = Update (Some t)"
    using visit_file_nth [of fopen i lines j tid] assms(1,2) t by simp
  moreover note t strtok_decomp [OF t]
  moreover have "(\<forall>c\<in>set t. \<not> isspace c) \<longleftrightarrow> spec_first_token (lines ! j) = Some t"
    using strtok_spec [OF t] spec_first_token_no_space [of "lines ! j" t] by blast
  ultimately show ?thesis by blast
qed

theorem first_space_token_submitted_witness:
  "visit_file (\<lambda>i. Some [''  10.0.0.1 - - [x]'' @ [CHR 0x0A]]) 0 1 ! 0 = Update (Some ''10.0.0.1'')
   \<and> spec_first_token (''  10.0.0.1 - - [x]'' @ [CHR 0x0A]) = Some ''10.0.0.1''"
proof -
  let ?l = "''  10.0.0.1 - - [x]'' @ [CHR 0x0A]"
  let ?f = "\<lambda>i::int. Some [?l]"
  have h1: "?f 1 = Some [?l]" by simp
  have h2: "(0::nat) < length [?l]" by simp
  have h3: "\<exists>c\<in>set ([?l] ! 0). c \<noteq> CHR '' ''" by simp
  have s: "strtok ?l = Some ''10.0.0.1''" by (simp add: strtok_def)
  have n: "\<forall>c\<in>set ''10.0.0.1''. \<not> isspace c" by (simp add: isspace_def)
  from first_space_token_submitted [of ?f 1 "[?l]" 0 0] h1 h2 h3
  obtain t where v: "visit_file ?f 0 1 ! 0 = Update (Some t)"
    and k: "strtok ([?l] ! 0) = Some t"
    and w: "(\<forall>c\<in>set t. \<not> isspace c) \<longleftrightarrow> spec_first_token ([?l] ! 0) = Some t"
    by blast
  from k s have e: "t = ''10.0.0.1''" by simp
  from w n have "spec_first_token ?l = Some ''10.0.0.1''"
    unfolding e by simp
  with v show ?thesis unfolding e by simp
qed

section \<open>The counter and the keys of the map\<close>

text \<open>
  C5, evaluated where it fails: one file whose only line is a single space, one
  thread. \<open>strtok\<close> returns NULL, \<open>sm_exists\<close> answers 0, \<open>sm_put\<close> stores nothing and
  the counter is incremented all the same: it ends at 1 while the map holds no key.
\<close>

theorem null_token_bumps_counter:
  "strtok '' '' = None
   \<and> readFiles True (\<lambda>i. if i = 1 then Some ['' ''] else None) 1 1 0
       = [Header 1 1 0, Update None, Accessed 1 0 1]
   \<and> num_distinct_IPs
        (run (readFiles True (\<lambda>i. if i = 1 then Some ['' ''] else None) 1 1 0) initial) = 1
   \<and> dom (map_sm
        (run (readFiles True (\<lambda>i. if i = 1 then Some ['' ''] else None) 1 1 0) initial)) = {}"
  by (simp add: readFiles_True file_range_upto bound_def c_div_def upto_rec1 visit_file_def
      strtok_def initial_def sm_new_def locked_update_def sm_exists_def sm_put_def)

text \<open>
  What holds of the counter on every sequence of actions: it never decreases, no key
  leaves the map, and the counter is the number of keys of the map plus the number of
  locked regions run with a NULL token.
\<close>

lemma counter_and_keys:
  "num_distinct_IPs (run tr initial)
     = int (card (dom (map_sm (run tr initial)))) + int (nulls tr)"
  by (simp add: run_count run_dom initial_def sm_new_def)

section \<open>The thread count and the outcome of the program\<close>

lemma atoi_values:
  "atoi ''2147483647'' = 2147483647" "atoi ''2147483648'' = - 2147483648"
  "atoi ''4294967296'' = 0" "atoi ''-2147483649'' = 2147483647"
  "atoi '' +7 threads'' = 7" "atoi ''x'' = 0"
  by (simp_all add: atoi_def strtol_def int_of_long_def isspace_def isdigit_def)







end
